theory Spec2Isabelle
  imports Main "HOL-Library.Sublist" "HOL-Library.Multiset"
begin

section \<open>Python strings\<close>

text \<open>
  Strings are lists of characters. The model covers ASCII text: \<open>str.lower\<close> maps
  \<open>A..Z\<close> to \<open>a..z\<close> and leaves every other character alone, and the whitespace
  of \<open>str.strip\<close> is the ASCII whitespace of Python (codes 9 to 13 and 28 to 32).
\<close>

definition char_lower :: "char \<Rightarrow> char" where
  "char_lower c =
     (let n = (of_char c :: nat) in if 65 \<le> n \<and> n \<le> 90 then char_of (n + 32) else c)"

definition str_lower :: "string \<Rightarrow> string" where
  "str_lower s = map char_lower s"

definition is_space :: "char \<Rightarrow> bool" where
  "is_space c = (let n = (of_char c :: nat) in (9 \<le> n \<and> n \<le> 13) \<or> (28 \<le> n \<and> n \<le> 32))"

definition str_strip :: "string \<Rightarrow> string" where
  "str_strip s = rev (dropWhile is_space (rev (dropWhile is_space s)))"

text \<open>\<open>sub in s\<close>: \<open>sub\<close> occurs in \<open>s\<close> as a contiguous substring.\<close>

fun str_in :: "string \<Rightarrow> string \<Rightarrow> bool" where
  "str_in sub [] = (sub = [])"
| "str_in sub (c # cs) = (prefix sub (c # cs) \<or> str_in sub cs)"

text \<open>\<open>s.split('. ')\<close>: cut at every occurrence of a full stop followed by a space,
  scanning from the left; \<open>cur\<close> holds the current piece, reversed.\<close>

fun split_dot_space :: "string \<Rightarrow> string \<Rightarrow> string list" where
  "split_dot_space cur [] = [rev cur]"
| "split_dot_space cur [c] = [rev (c # cur)]"
| "split_dot_space cur (c # d # cs) =
     (if c = CHR ''.'' \<and> d = CHR '' '' then rev cur # split_dot_space [] cs
      else split_dot_space (c # cur) (d # cs))"

definition str_split :: "string \<Rightarrow> string list" where
  "str_split s = split_dot_space [] s"

text \<open>\<open>sep.join(parts)\<close>.\<close>

fun str_join :: "string \<Rightarrow> string list \<Rightarrow> string" where
  "str_join sep [] = []"
| "str_join sep [p] = p"
| "str_join sep (p # q # ps) = p @ sep @ str_join sep (q # ps)"


text \<open>\<open>sum(1 for keyword in keywords if keyword in text)\<close>.\<close>

definition keyword_score :: "string list \<Rightarrow> string \<Rightarrow> nat" where
  "keyword_score keywords text = length (filter (\<lambda>keyword. str_in keyword text) keywords)"

text \<open>
  The scan behind both \<open>max(d, key=d.get)\<close> and the best-sentence loop of the
  summarizer: the candidate is replaced only by a strictly larger score, so the first
  maximal element wins.
\<close>

fun first_max :: "('a \<Rightarrow> nat) \<Rightarrow> 'a \<times> nat \<Rightarrow> 'a list \<Rightarrow> 'a \<times> nat" where
  "first_max f (best, m) [] = (best, m)"
| "first_max f (best, m) (x # xs) =
     (if f x > m then first_max f (x, f x) xs else first_max f (best, m) xs)"

section \<open>models.py\<close>

text \<open>\<open>published_at\<close> is the naive wall-clock reading of the datetime, in seconds.\<close>

record NewsItem =
  title :: string
  content :: string
  url :: string
  source :: string
  published_at :: int
  category :: string
  severity :: string
  tags :: "string list"
  summary :: string

datatype exn = Exception string | KeyError string

section \<open>news\_agent.py: search, buckets, statistics, deduplication\<close>

definition item_matches :: "string \<Rightarrow> NewsItem \<Rightarrow> bool" where
  "item_matches query_lower item =
     (str_in query_lower (str_lower (title item)) \<or>
      str_in query_lower (str_lower (content item)) \<or>
      list_ex (\<lambda>tag. str_in query_lower (str_lower tag)) (tags item))"

definition search_news :: "string \<Rightarrow> NewsItem list \<Rightarrow> NewsItem list" where
  "search_news query news_items =
     (let query_lower = str_lower query in
      foldl (\<lambda>matching_items item.
               if item_matches query_lower item then matching_items @ [item]
               else matching_items) [] news_items)"

text \<open>A dict with list values, in insertion order; \<open>d[k].append(v)\<close>.\<close>

fun dict_append :: "string \<Rightarrow> 'a \<Rightarrow> (string \<times> 'a list) list \<Rightarrow> (string \<times> 'a list) list" where
  "dict_append k v [] = []"
| "dict_append k v ((k', vs) # rest) =
     (if k' = k then (k', vs @ [v]) # rest else (k', vs) # dict_append k v rest)"

definition empty_categorized :: "(string \<times> NewsItem list) list" where
  "empty_categorized =
     [(''Latest Attacks'', []), (''New Tools'', []), (''Threat Intelligence'', []),
      (''Vulnerabilities'', []), (''General'', [])]"

definition categorize_step ::
  "(string \<times> NewsItem list) list \<Rightarrow> NewsItem \<Rightarrow> (string \<times> NewsItem list) list" where
  "categorize_step categorized item =
     (if category item \<in> set (map fst categorized)
      then dict_append (category item) item categorized
      else dict_append ''General'' item categorized)"

definition get_categorized_news :: "NewsItem list \<Rightarrow> (string \<times> NewsItem list) list" where
  "get_categorized_news news_items = foldl categorize_step empty_categorized news_items"

text \<open>A dict of counters; \<open>d[k] += 1\<close>.\<close>

fun dict_incr :: "string \<Rightarrow> (string \<times> nat) list \<Rightarrow> (string \<times> nat) list" where
  "dict_incr k [] = []"
| "dict_incr k ((k', n) # rest) =
     (if k' = k then (k', n + 1) # rest else (k', n) # dict_incr k rest)"

definition stats_step :: "(string \<times> nat) list \<Rightarrow> NewsItem \<Rightarrow> (string \<times> nat) list" where
  "stats_step stats item =
     (if severity item \<in> set (map fst stats) then dict_incr (severity item) stats else stats)"


definition title_key :: "NewsItem \<Rightarrow> string" where
  "title_key item = str_strip (str_lower (title item))"

definition dedup_step :: "string set \<times> NewsItem list \<Rightarrow> NewsItem \<Rightarrow> string set \<times> NewsItem list" where
  "dedup_step st item =
     (if title_key item \<notin> fst st then (insert (title_key item) (fst st), snd st @ [item])
      else st)"




section \<open>tools/summarizer.py\<close>

definition categories :: "(string \<times> string list) list" where
  "categories =
     [(''Latest Attacks'', [''ransomware'', ''malware'', ''attack'', ''breach'', ''hack'', ''incident'']),
      (''Vulnerabilities'', [''vulnerability'', ''exploit'', ''cve'', ''zero-day'', ''patch'', ''flaw'']),
      (''New Tools'', [''tool'', ''platform'', ''software'', ''solution'', ''framework'', ''technology'']),
      (''Threat Intelligence'', [''threat'', ''intelligence'', ''apt'', ''campaign'', ''actor'', ''group'']),
      (''General'', [''security'', ''cybersecurity'', ''infosec'', ''policy'', ''regulation'', ''compliance''])]"

definition severity_keywords :: "(string \<times> string list) list" where
  "severity_keywords =
     [(''High'', [''critical'', ''severe'', ''urgent'', ''emergency'', ''zero-day'', ''ransomware'', ''breach'']),
      (''Medium'', [''moderate'', ''significant'', ''important'', ''vulnerability'', ''exploit'']),
      (''Low'', [''minor'', ''update'', ''patch'', ''tool'', ''announcement'', ''guidance''])]"

definition all_tags :: "string list" where
  "all_tags =
     [''ransomware'', ''malware'', ''phishing'', ''breach'', ''vulnerability'',
      ''exploit'', ''cve'', ''zero-day'', ''apt'', ''threat'', ''security'',
      ''cybersecurity'', ''infosec'', ''hack'', ''attack'', ''incident'',
      ''tool'', ''platform'', ''framework'', ''policy'', ''compliance'']"

definition cyber_keywords :: "string list" where
  "cyber_keywords =
     [''attack'', ''breach'', ''vulnerability'', ''threat'', ''security'', ''malware'', ''ransomware'']"

text \<open>The score dict built by the loop over the keyword table, in the table's order.\<close>

definition keyword_scores :: "(string \<times> string list) list \<Rightarrow> string \<Rightarrow> (string \<times> nat) list" where
  "keyword_scores table content_text =
     map (\<lambda>(label, keywords). (label, keyword_score keywords content_text)) table"

text \<open>\<open>max(d, key=d.get)\<close> with the score found: the first entry of maximal score.
  On an empty dict Python raises; both keyword tables are non-empty constants.\<close>

definition py_max_key :: "(string \<times> nat) list \<Rightarrow> (string \<times> nat) option" where
  "py_max_key d = (case d of [] \<Rightarrow> None | kv # rest \<Rightarrow> Some (fst (first_max snd (kv, snd kv) rest)))"

definition determine_category :: "string \<Rightarrow> string" where
  "determine_category content_text =
     (case py_max_key (keyword_scores categories content_text) of
        None \<Rightarrow> ''General''
      | Some (best_category, score) \<Rightarrow> if score > 0 then best_category else ''General'')"

definition determine_severity :: "string \<Rightarrow> string" where
  "determine_severity content_text =
     (case py_max_key (keyword_scores severity_keywords content_text) of
        None \<Rightarrow> ''Medium''
      | Some (best_severity, score) \<Rightarrow> if score > 0 then best_severity else ''Medium'')"

definition extract_tags :: "string \<Rightarrow> string list" where
  "extract_tags content_text = take 5 (filter (\<lambda>tag. str_in tag content_text) all_tags)"

definition sentence_keywords :: "string \<Rightarrow> nat" where
  "sentence_keywords sentence = keyword_score cyber_keywords (str_lower sentence)"

definition truncate_200 :: "string \<Rightarrow> string" where
  "truncate_200 text = (if length text > 200 then take 200 text @ ''...'' else text)"

definition generate_rule_based_summary :: "NewsItem \<Rightarrow> string" where
  "generate_rule_based_summary item =
     (case str_split (content item) of
        first # second # others \<Rightarrow>
          (let (best_sentence, max_keywords) = first_max sentence_keywords ([], 0) (second # others);
               summary_sentences =
                 (if best_sentence \<noteq> [] \<and> best_sentence \<noteq> first then [first, best_sentence]
                  else [first])
           in str_join ''. '' summary_sentences @ ''.'')
      | _ \<Rightarrow> truncate_200 (content item))"

record analysis =
  a_summary :: string
  a_category :: string
  a_severity :: string
  a_tags :: "string list"

definition analyze_with_rules :: "NewsItem \<Rightarrow> analysis" where
  "analyze_with_rules item =
     (let content_text = str_lower (title item @ '' '' @ content item) in
      \<lparr>a_summary = generate_rule_based_summary item,
       a_category = determine_category content_text,
       a_severity = determine_severity content_text,
       a_tags = extract_tags content_text\<rparr>)"

definition analyze_with_rules_from_text :: "string \<Rightarrow> analysis" where
  "analyze_with_rules_from_text text =
     (let content_text = str_lower text in
      \<lparr>a_summary = truncate_200 text,
       a_category = determine_category content_text,
       a_severity = determine_severity content_text,
       a_tags = extract_tags content_text\<rparr>)"

text \<open>
  The JSON object found in a model response, with the four keys the parser reads; a key
  may be missing. The generative service and the JSON extraction (\<open>re.search\<close> followed
  by \<open>json.loads\<close>) are external: \<open>generate_content n item\<close> is the outcome of the
  \<open>n\<close>-th call of the service (the response text, or the exception raised), and
  \<open>extract_json text\<close> is the object found in \<open>text\<close>, if any.
\<close>

record json_obj =
  j_summary :: "string option"
  j_category :: "string option"
  j_severity :: "string option"
  j_tags :: "string list option"

record gemini =
  generate_content :: "nat \<Rightarrow> NewsItem \<Rightarrow> exn + string"
  extract_json :: "string \<Rightarrow> json_obj option"

record summarizer =
  gemini_api_key :: "string option"
  use_gemini :: bool
  api_calls :: nat

definition summarizer_init :: "string option \<Rightarrow> summarizer" where
  "summarizer_init key =
     \<lparr>gemini_api_key = key,
      use_gemini = (case key of None \<Rightarrow> False | Some k \<Rightarrow> k \<noteq> []),
      api_calls = 0\<rparr>"

fun exn_msg :: "exn \<Rightarrow> string" where
  "exn_msg (Exception msg) = msg"
| "exn_msg (KeyError k) = [CHR 0x27] @ k @ [CHR 0x27]"

definition get_default :: "'a \<Rightarrow> 'a option \<Rightarrow> 'a" where
  "get_default d v = (case v of None \<Rightarrow> d | Some x \<Rightarrow> x)"

definition parse_gemini_response :: "gemini \<Rightarrow> string \<Rightarrow> analysis" where
  "parse_gemini_response g response_text =
     (case extract_json g response_text of
        Some obj \<Rightarrow>
          \<lparr>a_summary = get_default [] (j_summary obj),
           a_category = get_default ''General'' (j_category obj),
           a_severity = get_default ''Medium'' (j_severity obj),
           a_tags = get_default [] (j_tags obj)\<rparr>
      | None \<Rightarrow> analyze_with_rules_from_text response_text)"

definition quota_error :: "string \<Rightarrow> bool" where
  "quota_error error_msg = (str_in ''quota'' (str_lower error_msg) \<or> str_in ''429'' error_msg)"

definition analyze_with_gemini :: "gemini \<Rightarrow> summarizer \<Rightarrow> NewsItem \<Rightarrow> analysis \<times> summarizer" where
  "analyze_with_gemini g s item =
     (let s1 = s\<lparr>api_calls := api_calls s + 1\<rparr> in
      case generate_content g (api_calls s) item of
        Inr text \<Rightarrow> (parse_gemini_response g (str_strip text), s1)
      | Inl e \<Rightarrow>
          (let s2 = (if quota_error (exn_msg e) then s1\<lparr>use_gemini := False\<rparr> else s1)
           in (analyze_with_rules item, s2)))"

text \<open>\<open>production\<close>: the environment variable \<open>FLASK_ENV\<close> equals \<open>production\<close>.\<close>

definition analyze_news_item ::
  "bool \<Rightarrow> gemini \<Rightarrow> summarizer \<Rightarrow> NewsItem \<Rightarrow> analysis \<times> summarizer" where
  "analyze_news_item production g s item =
     (if production then (analyze_with_rules item, s)
      else if use_gemini s then analyze_with_gemini g s item
      else (analyze_with_rules item, s))"

text \<open>A run of successive \<open>analyze_news_item\<close> calls on one summarizer.\<close>

fun analyze_calls ::
  "bool \<Rightarrow> gemini \<Rightarrow> summarizer \<Rightarrow> NewsItem list \<Rightarrow> analysis list \<times> summarizer" where
  "analyze_calls production g s [] = ([], s)"
| "analyze_calls production g s (item # rest) =
     (case analyze_news_item production g s item of
        (a, s') \<Rightarrow>
          (case analyze_calls production g s' rest of (as, s'') \<Rightarrow> (a # as, s'')))"

section \<open>Batch classification\<close>

text \<open>
  News items are objects. The loop of \<open>analyze_and_categorize\<close> and of
  \<open>batch_analyze\<close> assigns the four fields on the object it was handed and appends
  that same object; when the analysis raises, the handler appends the object without
  assigning anything. So a list of items is a list of references, and the store maps
  a reference to the current value of its object. The analysis is a parameter, a
  function of its state that returns a result or the exception raised.
\<close>

type_synonym item_ref = nat

type_synonym item_store = "item_ref \<Rightarrow> NewsItem"

definition apply_analysis :: "NewsItem \<Rightarrow> analysis \<Rightarrow> NewsItem" where
  "apply_analysis item a =
     item\<lparr>summary := a_summary a, category := a_category a,
          severity := a_severity a, tags := a_tags a\<rparr>"

definition analyze_step ::
  "('s \<Rightarrow> NewsItem \<Rightarrow> (exn + analysis) \<times> 's) \<Rightarrow>
   item_ref list \<times> item_store \<times> 's \<Rightarrow> item_ref \<Rightarrow> item_ref list \<times> item_store \<times> 's" where
  "analyze_step analyze st item =
     (case st of (analyzed_items, h, s) \<Rightarrow>
        (case analyze s (h item) of
           (Inr a, s') \<Rightarrow> (analyzed_items @ [item], h(item := apply_analysis (h item) a), s')
         | (Inl e, s') \<Rightarrow> (analyzed_items @ [item], h, s')))"

definition analyze_and_categorize ::
  "('s \<Rightarrow> NewsItem \<Rightarrow> (exn + analysis) \<times> 's) \<Rightarrow> 's \<Rightarrow> item_store \<Rightarrow> item_ref list \<Rightarrow>
   item_ref list \<times> item_store \<times> 's" where
  "analyze_and_categorize analyze s h refs = foldl (analyze_step analyze) ([], h, s) refs"

definition batch_analyze ::
  "('s \<Rightarrow> NewsItem \<Rightarrow> (exn + analysis) \<times> 's) \<Rightarrow> 's \<Rightarrow> item_store \<Rightarrow> item_ref list \<Rightarrow>
   item_ref list \<times> item_store \<times> 's" where
  "batch_analyze analyze s h refs = foldl (analyze_step analyze) ([], h, s) refs"


section \<open>news\_agent.py: the pipeline\<close>

record PipelineResult =
  news_items :: "NewsItem list"
  categorized_news :: "(string \<times> NewsItem list) list"
  daily_digest :: string
  severity_stats :: "(string \<times> nat) list"
  total_items :: nat
  timestamp :: string






section \<open>tools/report\_generator.py: the e-mail summary\<close>

text \<open>
  \<open>_get_severity_statistics\<close> has the body of \<open>get_severity_stats\<close>. The counters
  are read with \<open>stats['High']\<close>; the three keys are always present.
\<close>

definition get_severity_statistics :: "NewsItem list \<Rightarrow> (string \<times> nat) list" where
  "get_severity_statistics items =
     foldl stats_step [(''High'', 0), (''Medium'', 0), (''Low'', 0)] items"

definition stat :: "(string \<times> nat) list \<Rightarrow> string \<Rightarrow> nat" where
  "stat stats k = (case map_of stats k of Some n \<Rightarrow> n | None \<Rightarrow> 0)"

text \<open>\<open>{'High': 3, 'Medium': 2, 'Low': 1}[x.severity]\<close>: a missing key raises.\<close>

definition severity_rank :: "string \<Rightarrow> exn + nat" where
  "severity_rank sev =
     (if sev = ''High'' then Inr 3
      else if sev = ''Medium'' then Inr 2
      else if sev = ''Low'' then Inr 1
      else Inl (KeyError sev))"

text \<open>\<open>sorted\<close> computes the key of every element, in list order, before it compares.\<close>

fun sort_keys :: "NewsItem list \<Rightarrow> exn + ((nat \<times> int) \<times> NewsItem) list" where
  "sort_keys [] = Inr []"
| "sort_keys (x # xs) =
     (case severity_rank (severity x) of
        Inl e \<Rightarrow> Inl e
      | Inr r \<Rightarrow>
          (case sort_keys xs of
             Inl e \<Rightarrow> Inl e
           | Inr ks \<Rightarrow> Inr (((r, published_at x), x) # ks)))"

definition key_less :: "nat \<times> int \<Rightarrow> nat \<times> int \<Rightarrow> bool" where
  "key_less a b = (fst a < fst b \<or> (fst a = fst b \<and> snd a < snd b))"

text \<open>\<open>reverse=True\<close>: descending, elements of equal key in their original order.\<close>

fun insert_desc :: "(nat \<times> int) \<times> 'a \<Rightarrow> ((nat \<times> int) \<times> 'a) list \<Rightarrow> ((nat \<times> int) \<times> 'a) list" where
  "insert_desc x [] = [x]"
| "insert_desc x (y # ys) =
     (if key_less (fst y) (fst x) then x # y # ys else y # insert_desc x ys)"

definition sorted_reverse :: "((nat \<times> int) \<times> 'a) list \<Rightarrow> 'a list" where
  "sorted_reverse kxs = map snd (foldl (\<lambda>acc x. insert_desc x acc) [] kxs)"

text \<open>
  The HTML template is fixed text around the interpolated values; the body is modelled
  as the record of these values, the subject and the introduction as the template
  chosen and its numbers.
\<close>

datatype email_subject = Urgent nat | MediumUpdates nat | DailyDigest nat

datatype email_intro = CriticalAlerts nat int | MediumIncidents nat nat | UpdatesOnly nat

record email_article =
  art_url :: string
  art_title :: string
  art_summary :: string
  art_source :: string
  art_severity_class :: string
  art_severity :: string

record email_body =
  eb_greeting :: string
  eb_intro :: email_intro
  eb_total :: nat
  eb_high :: nat
  eb_medium :: nat
  eb_low :: nat
  eb_articles :: "email_article list"

record email =
  em_subject :: email_subject
  em_body :: email_body

definition format_article :: "NewsItem \<Rightarrow> email_article" where
  "format_article article =
     \<lparr>art_url = url article,
      art_title = title article,
      art_summary =
        (if length (content article) > 200
         then (if summary article \<noteq> [] then summary article
               else take 200 (content article) @ ''...'')
         else content article),
      art_source = source article,
      art_severity_class = str_lower (severity article),
      art_severity = severity article\<rparr>"

definition format_email_html :: "nat \<Rightarrow> NewsItem list \<Rightarrow> (string \<times> nat) list \<Rightarrow> exn + email_body" where
  "format_email_html current_hour items stats =
     (let greeting =
            (if current_hour < 12 then ''Good morning''
             else if current_hour < 17 then ''Good afternoon''
             else ''Good evening'')
      in case sort_keys items of
           Inl e \<Rightarrow> Inl e
         | Inr keyed \<Rightarrow>
             (let top_articles = take 5 (sorted_reverse keyed);
                  total = length items;
                  high_count = stat stats ''High'';
                  medium_count = stat stats ''Medium'';
                  intro =
                    (if high_count > 0 then CriticalAlerts high_count (int total - int high_count)
                     else if medium_count > 0 then MediumIncidents medium_count total
                     else UpdatesOnly total)
              in Inr \<lparr>eb_greeting = greeting, eb_intro = intro, eb_total = total,
                      eb_high = stat stats ''High'', eb_medium = stat stats ''Medium'',
                      eb_low = stat stats ''Low'',
                      eb_articles = map format_article top_articles\<rparr>))"

definition generate_email_summary :: "nat \<Rightarrow> NewsItem list \<Rightarrow> exn + email" where
  "generate_email_summary current_hour items =
     (let stats = get_severity_statistics items;
          subj =
            (if stat stats ''High'' > 0 then Urgent (stat stats ''High'')
             else if stat stats ''Medium'' > 0 then MediumUpdates (stat stats ''Medium'')
             else DailyDigest (length items))
      in case format_email_html current_hour items stats of
           Inl e \<Rightarrow> Inl e
         | Inr html \<Rightarrow> Inr \<lparr>em_subject = subj, em_body = html\<rparr>)"

section \<open>tools/notification\_service.py: the subscriber set\<close>

text \<open>
  \<open>_load_subscribers\<close> reads the lines of the subscriber file; \<open>None\<close> stands for a
  missing or unreadable file. The welcome mail and the file written by
  \<open>_save_subscribers\<close> do not change the set in memory.
\<close>

definition load_subscribers :: "string list option \<Rightarrow> string set" where
  "load_subscribers file =
     (case file of
        None \<Rightarrow> {}
      | Some lines \<Rightarrow>
          set (map (\<lambda>line. str_lower (str_strip line))
                 (filter (\<lambda>line. str_strip line \<noteq> []) lines)))"

definition add_subscriber :: "string set \<Rightarrow> string \<Rightarrow> bool \<times> string set" where
  "add_subscriber subscribers email_arg =
     (let addr = str_lower (str_strip email_arg) in
      if addr \<in> subscribers then (False, subscribers)
      else (True, insert addr subscribers))"

definition remove_subscriber :: "string set \<Rightarrow> string \<Rightarrow> bool \<times> string set" where
  "remove_subscriber subscribers email_arg =
     (let addr = str_lower (str_strip email_arg) in
      if addr \<in> subscribers then (True, subscribers - {addr})
      else (False, subscribers))"

datatype subscriber_op = Add string | Remove string

fun apply_ops :: "string set \<Rightarrow> subscriber_op list \<Rightarrow> string set" where
  "apply_ops subscribers [] = subscribers"
| "apply_ops subscribers (Add e # ops) = apply_ops (snd (add_subscriber subscribers e)) ops"
| "apply_ops subscribers (Remove e # ops) = apply_ops (snd (remove_subscriber subscribers e)) ops"

text \<open>
  The format check of the subscription route in app.py, the regular expression
  \<open>^[^\s@]+@[^\s@]+\.[^\s@]+$\<close> on a trimmed address: a non-empty local part, one
  \<open>@\<close>, and a domain with a full stop that is neither its first nor its last
  character; no whitespace and no second \<open>@\<close> anywhere.
\<close>

definition email_char :: "char \<Rightarrow> bool" where
  "email_char c = (\<not> is_space c \<and> c \<noteq> CHR ''@'')"

definition valid_email :: "string \<Rightarrow> bool" where
  "valid_email e =
     (let local_part = takeWhile email_char e in
      local_part \<noteq> [] \<and>
      (case drop (length local_part) e of
         [] \<Rightarrow> False
       | c # domain \<Rightarrow>
           c = CHR ''@'' \<and> list_all email_char domain \<and>
           list_ex (\<lambda>i. domain ! i = CHR ''.'') [1..<length domain - 1]))"

text \<open>The address as \<open>add_subscriber\<close> and \<open>remove_subscriber\<close> normalise it.\<close>

definition normalized :: "string \<Rightarrow> string" where
  "normalized e = str_lower (str_strip e)"

text \<open>Every address that a list of operations adds passes the format check.\<close>

fun adds_valid :: "subscriber_op list \<Rightarrow> bool" where
  "adds_valid [] = True"
| "adds_valid (Add e # ops) = (valid_email (normalized e) \<and> adds_valid ops)"
| "adds_valid (Remove e # ops) = adds_valid ops"

section \<open>Notions of the specification\<close>

text \<open>The severity tiers, and the items whose severity is one of them.\<close>

definition severity_tiers :: "string list" where
  "severity_tiers = [''High'', ''Medium'', ''Low'']"

definition tiered :: "NewsItem \<Rightarrow> bool" where
  "tiered item = (severity item \<in> set severity_tiers)"

text \<open>The five category labels, as the keys of the bucket mapping, and the bucket an
  item belongs to: its own category when that is a key, General otherwise.\<close>

definition category_keys :: "string list" where
  "category_keys =
     [''Latest Attacks'', ''New Tools'', ''Threat Intelligence'', ''Vulnerabilities'', ''General'']"

definition bucket_key :: "NewsItem \<Rightarrow> string" where
  "bucket_key item = (if category item \<in> set category_keys then category item else ''General'')"

text \<open>
  Two ways to score a keyword list on a text. \<open>keywords_present\<close> is the number of
  keywords of the list that occur in the text at least once: a keyword counts once,
  however often it occurs. \<open>occurrence_score\<close> is the number of occurrences of the
  keywords in the text: a keyword counts once for every position where it starts.
\<close>

definition keywords_present :: "string list \<Rightarrow> string \<Rightarrow> nat" where
  "keywords_present keywords text = card {keyword \<in> set keywords. sublist keyword text}"

fun occurrences :: "string \<Rightarrow> string \<Rightarrow> nat" where
  "occurrences keyword [] = 0"
| "occurrences keyword (c # cs) =
     (if prefix keyword (c # cs) then 1 else 0) + occurrences keyword cs"

definition occurrence_score :: "string list \<Rightarrow> string \<Rightarrow> nat" where
  "occurrence_score keywords text = sum_list (map (\<lambda>keyword. occurrences keyword text) keywords)"

text \<open>The enumeration order of the categories in the specification, the keyword list
  of a category, and the score of a category on a text: the number of its keywords
  that are present in the text.\<close>

definition category_order :: "string list" where
  "category_order =
     [''Latest Attacks'', ''Vulnerabilities'', ''New Tools'', ''Threat Intelligence'', ''General'']"

definition category_keywords :: "string \<Rightarrow> string list" where
  "category_keywords c = (case map_of categories c of None \<Rightarrow> [] | Some keywords \<Rightarrow> keywords)"

definition category_score :: "string \<Rightarrow> string \<Rightarrow> nat" where
  "category_score text c = keywords_present (category_keywords c) text"

definition max_category_score :: "string \<Rightarrow> nat" where
  "max_category_score text = Max (set (map (category_score text) category_order))"

text \<open>
  The category as the specification words it, with the score of a category counting
  the occurrences of its keywords: the first category of maximal score in the
  enumeration order, General when the maximal score is 0.
\<close>

definition category_occurrences :: "string \<Rightarrow> string \<Rightarrow> nat" where
  "category_occurrences text c = occurrence_score (category_keywords c) text"

definition spec_category :: "string \<Rightarrow> string" where
  "spec_category text =
     (let m = Max (set (map (category_occurrences text) category_order)) in
      if m = 0 then ''General''
      else (case find (\<lambda>c. category_occurrences text c = m) category_order of
              None \<Rightarrow> ''General''
            | Some c \<Rightarrow> c))"

text \<open>
  The later sentence that joins the first one in the summary, when there is one: the
  first of the later sentences in which the most keywords are present, when a keyword
  is present in some later sentence.
\<close>

definition sentence_present :: "string \<Rightarrow> nat" where
  "sentence_present sentence = keywords_present cyber_keywords (str_lower sentence)"

definition best_later :: "string list \<Rightarrow> string option" where
  "best_later later =
     (let m = Max (set (map sentence_present later)) in
      if m = 0 then None else find (\<lambda>s. sentence_present s = m) later)"

text \<open>
  The summary as the specification words it: with at least two sentences, the first
  sentence, and after it the first of the later sentences with the most occurrences
  of the keywords when some later sentence has one; otherwise the first 200
  characters, with an ellipsis when the content is longer.
\<close>

definition sentence_occurrences :: "string \<Rightarrow> nat" where
  "sentence_occurrences sentence = occurrence_score cyber_keywords (str_lower sentence)"

definition spec_best_later :: "string list \<Rightarrow> string option" where
  "spec_best_later later =
     (let m = Max (set (map sentence_occurrences later)) in
      if m = 0 then None else find (\<lambda>s. sentence_occurrences s = m) later)"

definition spec_summary :: "NewsItem \<Rightarrow> string" where
  "spec_summary item =
     (case str_split (content item) of
        first # second # others \<Rightarrow>
          (case spec_best_later (second # others) of
             None \<Rightarrow> first @ ''.''
           | Some best \<Rightarrow> first @ ''. '' @ best @ ''.'')
      | _ \<Rightarrow> truncate_200 (content item))"

text \<open>The value of an item's object after the loop step for it, given the outcome of
  its analysis.\<close>

definition classified :: "exn + analysis \<Rightarrow> NewsItem \<Rightarrow> NewsItem" where
  "classified r item = (case r of Inl e \<Rightarrow> item | Inr a \<Rightarrow> apply_analysis item a)"

section \<open>Example inputs\<close>

text \<open>An item as the connectors build it: category General, severity Medium, no tags.\<close>

definition fetched_item :: "string \<Rightarrow> string \<Rightarrow> NewsItem" where
  "fetched_item t c =
     \<lparr>title = t, content = c, url = ''https://example.org/'' @ t, source = ''Example'',
      published_at = 0, category = ''General'', severity = ''Medium'', tags = [], summary = []\<rparr>"





text \<open>A service whose every call fails with a quota message.\<close>

definition quota_gemini :: gemini where
  "quota_gemini =
     \<lparr>generate_content = (\<lambda>n item. Inl (Exception ''429 Quota exceeded'')),
      extract_json = (\<lambda>text. None)\<rparr>"

text \<open>A store of three objects; the second is titled \<open>bad\<close>.\<close>

definition example_store :: item_store where
  "example_store =
     (\<lambda>r. [fetched_item ''good'' ''x'', fetched_item ''bad'' ''y'', fetched_item ''fine'' ''z''] ! r)"

text \<open>An analysis that raises on the item titled \<open>bad\<close>.\<close>

definition flaky_analyze :: "nat \<Rightarrow> NewsItem \<Rightarrow> (exn + analysis) \<times> nat" where
  "flaky_analyze s item =
     (if title item = ''bad'' then (Inl (Exception ''analysis failed''), s + 1)
      else (Inr \<lparr>a_summary = ''ok'', a_category = ''General'', a_severity = ''Low'',
                 a_tags = []\<rparr>, s + 1))"

section \<open>Strings: basic facts\<close>

lemma str_in_sublist: "str_in sub s \<longleftrightarrow> sublist sub s"
  by (induction s) (auto simp: sublist_Cons_right)

lemma search_news_foldl:
  "foldl (\<lambda>acc item. if P item then acc @ [item] else acc) acc0 xs = acc0 @ filter P xs"
  by (induction xs arbitrary: acc0) auto

section \<open>Search\<close>

text \<open>
  C7. For every query and every list of items, \<open>search_news\<close> returns exactly the items
  whose lower-cased title, lower-cased content or some lower-cased tag contains the
  lower-cased query as a substring, in the order of the input list.
\<close>

theorem search_news_exact:
  "search_news query items =
     filter (\<lambda>item. sublist (str_lower query) (str_lower (title item)) \<or>
                     sublist (str_lower query) (str_lower (content item)) \<or>
                     (\<exists>tag \<in> set (tags item). sublist (str_lower query) (str_lower tag)))
            items"
  by (simp add: search_news_def item_matches_def search_news_foldl str_in_sublist
        list_ex_iff Let_def)

theorem search_news_exact_witness:
  "search_news ''RansomWare''
     [fetched_item ''Ransomware Hits Hospital'' ''x'',
      fetched_item ''New Patch Released'' ''fixes a ransomware-adjacent bug'',
      fetched_item ''Conference News'' ''y''] =
     [fetched_item ''Ransomware Hits Hospital'' ''x'',
      fetched_item ''New Patch Released'' ''fixes a ransomware-adjacent bug''] \<and>
   filter (\<lambda>item. sublist (str_lower ''RansomWare'') (str_lower (title item)) \<or>
                   sublist (str_lower ''RansomWare'') (str_lower (content item)) \<or>
                   (\<exists>tag \<in> set (tags item). sublist (str_lower ''RansomWare'') (str_lower tag)))
     [fetched_item ''Ransomware Hits Hospital'' ''x'',
      fetched_item ''New Patch Released'' ''fixes a ransomware-adjacent bug'',
      fetched_item ''Conference News'' ''y''] =
     [fetched_item ''Ransomware Hits Hospital'' ''x'',
      fetched_item ''New Patch Released'' ''fixes a ransomware-adjacent bug'']"
proof -
  have e: "search_news ''RansomWare''
     [fetched_item ''Ransomware Hits Hospital'' ''x'',
      fetched_item ''New Patch Released'' ''fixes a ransomware-adjacent bug'',
      fetched_item ''Conference News'' ''y''] =
     [fetched_item ''Ransomware Hits Hospital'' ''x'',
      fetched_item ''New Patch Released'' ''fixes a ransomware-adjacent bug'']"
    by code_simp
  show ?thesis
    using e
      search_news_exact [of "''RansomWare''"
        "[fetched_item ''Ransomware Hits Hospital'' ''x'',
          fetched_item ''New Patch Released'' ''fixes a ransomware-adjacent bug'',
          fetched_item ''Conference News'' ''y'']"]
    by metis
qed

section \<open>Category buckets\<close>

lemma dict_append_fst: "map fst (dict_append k v d) = map fst d"
  by (induction d) auto

lemma dict_append_map:
  "distinct (map fst d) \<Longrightarrow>
   dict_append k v d = map (\<lambda>(k', vs). (k', if k' = k then vs @ [v] else vs)) d"
proof (induction d)
  case Nil
  then show ?case by simp
next
  case (Cons p d)
  obtain k' vs where p: "p = (k', vs)" by (cases p)
  show ?case
  proof (cases "k' = k")
    case True
    with Cons.prems p have "k \<notin> fst ` set d" by auto
    then have "map (\<lambda>(k', vs). (k', if k' = k then vs @ [v] else vs)) d = d"
      by (intro map_idI) (auto simp: rev_image_eqI)
    with True p show ?thesis by simp
  next
    case False
    with Cons p show ?thesis by simp
  qed
qed

lemma categorize_step_map:
  assumes "map fst d = category_keys"
  shows "categorize_step d item =
         map (\<lambda>(k, vs). (k, if k = bucket_key item then vs @ [item] else vs)) d"
proof -
  have dist: "distinct (map fst d)" using assms by (simp add: category_keys_def)
  have "categorize_step d item = dict_append (bucket_key item) item d"
    using assms by (simp add: categorize_step_def bucket_key_def)
  then show ?thesis using dict_append_map [OF dist] by (simp add: eq_commute)
qed

lemma categorize_fold:
  "map fst d = category_keys \<Longrightarrow>
   foldl categorize_step d items =
   map (\<lambda>(k, vs). (k, vs @ filter (\<lambda>item. bucket_key item = k) items)) d"
proof (induction items arbitrary: d)
  case Nil
  then show ?case by simp
next
  case (Cons x xs)
  let ?d' = "categorize_step d x"
  have step: "?d' = map (\<lambda>(k, vs). (k, if k = bucket_key x then vs @ [x] else vs)) d"
    using Cons.prems by (rule categorize_step_map)
  then have keys: "map fst ?d' = category_keys"
    using Cons.prems by (simp add: case_prod_unfold comp_def)
  show ?case
    using Cons.IH [OF keys] by (simp add: step case_prod_unfold comp_def eq_commute)
qed

lemma bucket_key_in: "bucket_key item \<in> set category_keys"
  by (simp add: bucket_key_def category_keys_def)

lemma buckets_partition:
  "distinct ks \<Longrightarrow> (\<forall>x \<in> set xs. f x \<in> set ks) \<Longrightarrow>
   mset (concat (map (\<lambda>k. filter (\<lambda>x. f x = k) xs) ks)) = mset xs"
proof (induction ks arbitrary: xs)
  case Nil
  then show ?case by simp
next
  case (Cons k ks)
  define rest where "rest = filter (\<lambda>x. f x \<noteq> k) xs"
  have d: "distinct ks" and nk: "k \<notin> set ks" using Cons.prems by auto
  have h: "\<forall>x \<in> set rest. f x \<in> set ks" using Cons.prems by (auto simp: rest_def)
  have A: "mset (concat (map (\<lambda>k'. filter (\<lambda>x. f x = k') rest) ks)) = mset rest"
    using d h by (rule Cons.IH)
  have B: "map (\<lambda>k'. filter (\<lambda>x. f x = k') rest) ks = map (\<lambda>k'. filter (\<lambda>x. f x = k') xs) ks"
  proof (rule map_cong [OF refl])
    fix k' assume "k' \<in> set ks"
    with nk have "k' \<noteq> k" by auto
    then show "filter (\<lambda>x. f x = k') rest = filter (\<lambda>x. f x = k') xs"
      unfolding rest_def filter_filter by (intro filter_cong) auto
  qed
  have C: "mset (filter (\<lambda>x. f x = k) xs) + mset rest = mset xs"
    unfolding rest_def mset_filter by (rule multiset_partition [symmetric])
  have "mset (concat (map (\<lambda>k'. filter (\<lambda>x. f x = k') xs) (k # ks))) =
        mset (filter (\<lambda>x. f x = k) xs) + mset (concat (map (\<lambda>k'. filter (\<lambda>x. f x = k') xs) ks))"
    by simp
  also have "\<dots> = mset (filter (\<lambda>x. f x = k) xs) + mset rest"
    using A B by simp
  finally show ?case using C by simp
qed

text \<open>
  C6. For every list of items, the mapping returned by \<open>get_categorized_news\<close> has
  exactly the five category labels as keys; the bucket of a key holds, in input order,
  the items whose category is that key, or, under General, also the items whose
  category is none of the keys; the buckets together hold every input item exactly once.
\<close>

theorem get_categorized_news_buckets:
  "get_categorized_news items =
     map (\<lambda>k. (k, filter (\<lambda>item. bucket_key item = k) items)) category_keys \<and>
   map fst (get_categorized_news items) =
     [''Latest Attacks'', ''New Tools'', ''Threat Intelligence'', ''Vulnerabilities'', ''General''] \<and>
   mset (concat (map snd (get_categorized_news items))) = mset items"
proof -
  have keys: "map fst empty_categorized = category_keys"
    by (simp add: empty_categorized_def category_keys_def)
  have eq: "get_categorized_news items =
     map (\<lambda>k. (k, filter (\<lambda>item. bucket_key item = k) items)) category_keys"
    unfolding get_categorized_news_def categorize_fold [OF keys]
    by (simp add: empty_categorized_def category_keys_def)
  have "distinct category_keys" by (simp add: category_keys_def)
  then have "mset (concat (map (\<lambda>k. filter (\<lambda>item. bucket_key item = k) items) category_keys)) = mset items"
    by (rule buckets_partition) (simp add: bucket_key_in)
  then have m: "mset (concat (map snd (get_categorized_news items))) = mset items"
    by (simp add: eq comp_def)
  have "map fst (get_categorized_news items) = category_keys"
    by (simp add: eq comp_def)
  then show ?thesis using eq m by (simp add: category_keys_def)
qed

theorem get_categorized_news_buckets_witness:
  "get_categorized_news
     [(fetched_item ''a'' ''x'')\<lparr>category := ''Zero Days''\<rparr>,
      (fetched_item ''b'' ''y'')\<lparr>category := ''New Tools''\<rparr>] =
     [(''Latest Attacks'', []),
      (''New Tools'', [(fetched_item ''b'' ''y'')\<lparr>category := ''New Tools''\<rparr>]),
      (''Threat Intelligence'', []),
      (''Vulnerabilities'', []),
      (''General'', [(fetched_item ''a'' ''x'')\<lparr>category := ''Zero Days''\<rparr>])]"
proof -
  have b: "bucket_key ((fetched_item ''a'' ''x'')\<lparr>category := ''Zero Days''\<rparr>) = ''General''"
    "bucket_key ((fetched_item ''b'' ''y'')\<lparr>category := ''New Tools''\<rparr>) = ''New Tools''"
    by (simp_all add: bucket_key_def category_keys_def)
  show ?thesis
    using get_categorized_news_buckets
      [of "[(fetched_item ''a'' ''x'')\<lparr>category := ''Zero Days''\<rparr>,
            (fetched_item ''b'' ''y'')\<lparr>category := ''New Tools''\<rparr>]"]
    by (simp add: b category_keys_def)
qed

section \<open>Severity statistics\<close>








section \<open>Batch classification\<close>

lemma analyze_step_eq:
  "analyze_step an (acc, h, s) x =
     (acc @ [x], h(x := classified (fst (an s (h x))) (h x)), snd (an s (h x)))"
  by (auto simp: analyze_step_def classified_def split: prod.splits sum.splits)

lemma analyze_fold_acc:
  "foldl (analyze_step an) (acc, h, s) xs =
     (acc @ fst (foldl (analyze_step an) ([], h, s) xs),
      snd (foldl (analyze_step an) ([], h, s) xs))"
proof (induction xs arbitrary: acc h s)
  case Nil
  then show ?case by simp
next
  case (Cons x xs)
  define h1 where "h1 = h(x := classified (fst (an s (h x))) (h x))"
  define s1 where "s1 = snd (an s (h x))"
  define F where "F = foldl (analyze_step an) ([], h1, s1) xs"
  have st: "analyze_step an (a, h, s) x = (a @ [x], h1, s1)" for a
    by (simp add: analyze_step_eq h1_def s1_def)
  have 1: "foldl (analyze_step an) (acc, h, s) (x # xs) = (acc @ [x] @ fst F, snd F)"
    using Cons.IH [of "acc @ [x]" h1 s1] by (simp add: st F_def)
  have 2: "foldl (analyze_step an) ([], h, s) (x # xs) = ([x] @ fst F, snd F)"
    using Cons.IH [of "[x]" h1 s1] by (simp add: st F_def)
  show ?case unfolding 1 2 by simp
qed

lemma analyze_Nil: "analyze_and_categorize an s h [] = ([], h, s)"
  by (simp add: analyze_and_categorize_def)

lemma analyze_Cons:
  "analyze_and_categorize an s h (x # xs) =
     (x # fst (analyze_and_categorize an (snd (an s (h x)))
                 (h(x := classified (fst (an s (h x))) (h x))) xs),
      snd (analyze_and_categorize an (snd (an s (h x)))
                 (h(x := classified (fst (an s (h x))) (h x))) xs))"
proof -
  have "analyze_step an ([], h, s) x =
      ([x], h(x := classified (fst (an s (h x))) (h x)), snd (an s (h x)))"
    by (simp add: analyze_step_eq)
  then show ?thesis
    unfolding analyze_and_categorize_def
    using analyze_fold_acc [of an "[x]" "h(x := classified (fst (an s (h x))) (h x))"
        "snd (an s (h x))" xs]
    by simp
qed

lemma analyze_refs: "fst (analyze_and_categorize an s h xs) = xs"
  by (induction xs arbitrary: s h) (simp_all add: analyze_Nil analyze_Cons)

lemma analyze_append:
  "snd (analyze_and_categorize an s h (xs @ ys)) =
     snd (analyze_and_categorize an
            (snd (snd (analyze_and_categorize an s h xs)))
            (fst (snd (analyze_and_categorize an s h xs))) ys)"
  by (induction xs arbitrary: s h) (simp_all add: analyze_Nil analyze_Cons)

lemma analyze_frame:
  "x \<notin> set xs \<Longrightarrow> fst (snd (analyze_and_categorize an s h xs)) x = h x"
  by (induction xs arbitrary: s h) (simp_all add: analyze_Nil analyze_Cons)

section \<open>The pipeline result\<close>










section \<open>Batch classification: failures are isolated\<close>

text \<open>
  C8. For every analysis, every state, every store and every input list,
  \<open>analyze_and_categorize\<close> (and \<open>batch_analyze\<close>, which has the same loop) returns the
  objects of the input list, each once for every place it has there, in the same
  order, so a list of the same length. The loop step for an item calls the analysis on
  the item's current value; when the analysis raises, the step changes no object, and
  in either case the items after it are processed from the state and the store that
  the step leaves. When the objects of the list are pairwise different, as they are
  for the items that the connectors return, the analysis of an item sees the item's
  input value, and in the output the item has that value classified by the outcome of
  its own analysis: unmodified when its analysis raised. (An object that the list
  holds twice is one object: it carries what the last successful analysis of it
  assigned.)
\<close>

theorem batch_retains_failed_items:
  "fst (analyze_and_categorize an s h items) = items \<and>
   length (fst (analyze_and_categorize an s h items)) = length items \<and>
   batch_analyze an s h items = analyze_and_categorize an s h items \<and>
   (\<forall>before x after. items = before @ x # after \<longrightarrow>
      (let h1 = fst (snd (analyze_and_categorize an s h before));
           s1 = snd (snd (analyze_and_categorize an s h before));
           r = an s1 (h1 x)
       in snd (analyze_and_categorize an s h (before @ [x])) =
            (h1(x := classified (fst r) (h1 x)), snd r) \<and>
          (\<forall>e. fst r = Inl e \<longrightarrow>
             fst (snd (analyze_and_categorize an s h (before @ [x]))) = h1) \<and>
          snd (analyze_and_categorize an s h items) =
            snd (analyze_and_categorize an (snd r) (h1(x := classified (fst r) (h1 x))) after) \<and>
          (distinct items \<longrightarrow>
             h1 x = h x \<and>
             fst (snd (analyze_and_categorize an s h items)) x = classified (fst r) (h x) \<and>
             (\<forall>e. fst r = Inl e \<longrightarrow>
                fst (snd (analyze_and_categorize an s h items)) x = h x))))"
proof -
  have same: "batch_analyze an s h items = analyze_and_categorize an s h items"
    by (simp add: batch_analyze_def analyze_and_categorize_def)
  have pos: "snd (analyze_and_categorize an s h (before @ [x])) =
            (h1(x := classified (fst r) (h1 x)), snd r) \<and>
          (\<forall>e. fst r = Inl e \<longrightarrow>
             fst (snd (analyze_and_categorize an s h (before @ [x]))) = h1) \<and>
          snd (analyze_and_categorize an s h items) =
            snd (analyze_and_categorize an (snd r) (h1(x := classified (fst r) (h1 x))) after) \<and>
          (distinct items \<longrightarrow>
             h1 x = h x \<and>
             fst (snd (analyze_and_categorize an s h items)) x = classified (fst r) (h x) \<and>
             (\<forall>e. fst r = Inl e \<longrightarrow>
                fst (snd (analyze_and_categorize an s h items)) x = h x))"
    if it: "items = before @ x # after"
      and h1: "h1 = fst (snd (analyze_and_categorize an s h before))"
      and s1: "s1 = snd (snd (analyze_and_categorize an s h before))"
      and r: "r = an s1 (h1 x)"
    for before x after h1 s1 r
  proof -
    have step: "snd (analyze_and_categorize an s h (before @ [x])) =
        (h1(x := classified (fst r) (h1 x)), snd r)"
      by (simp add: analyze_append analyze_Cons analyze_Nil h1 s1 r)
    have raise: "fst (snd (analyze_and_categorize an s h (before @ [x]))) = h1"
      if "fst r = Inl e" for e
      using that by (simp add: step classified_def)
    have cont: "snd (analyze_and_categorize an s h items) =
        snd (analyze_and_categorize an (snd r) (h1(x := classified (fst r) (h1 x))) after)"
      unfolding it by (simp add: analyze_append [of an s h before "x # after"] analyze_Cons h1 s1 r)
    have dist: "h1 x = h x \<and>
        fst (snd (analyze_and_categorize an s h items)) x = classified (fst r) (h x) \<and>
        (\<forall>e. fst r = Inl e \<longrightarrow> fst (snd (analyze_and_categorize an s h items)) x = h x)"
      if d: "distinct items"
    proof -
      have nb: "x \<notin> set before" and na: "x \<notin> set after" using d it by auto
      have pre: "h1 x = h x" unfolding h1 using nb by (rule analyze_frame)
      have fin: "fst (snd (analyze_and_categorize an s h items)) x = classified (fst r) (h x)"
        unfolding cont using na by (simp add: analyze_frame pre)
      show ?thesis using pre fin by (auto simp: classified_def)
    qed
    show ?thesis using step raise cont dist by blast
  qed
  note at_position = pos [OF _ refl refl refl]
  have refs: "fst (analyze_and_categorize an s h items) = items"
    by (rule analyze_refs)
  then have len: "length (fst (analyze_and_categorize an s h items)) = length items"
    by simp
  show ?thesis
    unfolding Let_def using refs len same at_position by blast
qed

theorem batch_retains_failed_items_witness:
  "[0, 1, 2] = [0] @ 1 # [2::nat] \<and> distinct [0, 1, 2::nat] \<and>
   example_store 1 = fetched_item ''bad'' ''y'' \<and>
   fst (flaky_analyze (snd (snd (analyze_and_categorize flaky_analyze 0 example_store [0])))
          (fst (snd (analyze_and_categorize flaky_analyze 0 example_store [0])) 1)) =
     Inl (Exception ''analysis failed'') \<and>
   fst (analyze_and_categorize flaky_analyze 0 example_store [0, 1, 2]) = [0, 1, 2] \<and>
   fst (snd (analyze_and_categorize flaky_analyze 0 example_store [0, 1, 2])) 1 =
     example_store 1"
proof -
  have h1: "[0, 1, 2] = [0] @ 1 # [2::nat]" and h2: "distinct [0, 1, 2::nat]"
    by simp_all
  have h3: "fst (flaky_analyze (snd (snd (analyze_and_categorize flaky_analyze 0 example_store [0])))
          (fst (snd (analyze_and_categorize flaky_analyze 0 example_store [0])) 1)) =
     Inl (Exception ''analysis failed'')"
    by code_simp
  have h4: "example_store 1 = fetched_item ''bad'' ''y''"
    by (simp add: example_store_def)
  show ?thesis
    using h1 h2 h3 h4
      batch_retains_failed_items [of flaky_analyze 0 example_store "[0, 1, 2]", unfolded Let_def]
    by blast
qed

section \<open>Deduplication and collection\<close>


lemma dedup_from_Nil: "snd (foldl dedup_step (seen, []) []) = []"
  by simp









section \<open>The first maximum\<close>

lemma first_max_none:
  "\<forall>x \<in> set xs. f x \<le> m \<Longrightarrow> first_max f (b, m) xs = (b, m)"
  by (induction xs) auto

lemma Max_image_ge: "y \<in> set xs \<Longrightarrow> f y \<le> Max (f ` set xs)"
  by simp

lemma Max_image_Cons:
  "xs \<noteq> [] \<Longrightarrow> Max (f ` set (x # xs)) = max (f x) (Max (f ` set xs))"
  by simp

lemma first_max_some:
  "\<exists>x \<in> set xs. m < f x \<Longrightarrow>
   snd (first_max f (b, m) xs) = Max (f ` set xs) \<and>
   find (\<lambda>x. f x = Max (f ` set xs)) xs = Some (fst (first_max f (b, m) xs))"
proof (induction xs arbitrary: b m)
  case Nil
  then show ?case by simp
next
  case (Cons x xs)
  show ?case
  proof (cases "\<exists>y \<in> set xs. max m (f x) < f y")
    case True
    then obtain y where y: "y \<in> set xs" "m < f y" "f x < f y" by auto
    then have ne: "xs \<noteq> []" by auto
    have lt: "f x < Max (f ` set xs)"
      using y(3) Max_image_ge [OF y(1), of f] by linarith
    then have M: "Max (f ` set (x # xs)) = Max (f ` set xs)"
      unfolding Max_image_Cons [OF ne] by (simp add: max_def)
    have neq: "f x \<noteq> Max (f ` set xs)" using lt by simp
    show ?thesis
    proof (cases "m < f x")
      case mx: True
      have "\<exists>y \<in> set xs. f x < f y" using y by blast
      from Cons.IH [OF this, of x] show ?thesis
        unfolding M using mx neq by simp
    next
      case mx: False
      have "\<exists>y \<in> set xs. m < f y" using y by blast
      from Cons.IH [OF this, of b] show ?thesis
        unfolding M using mx neq by simp
    qed
  next
    case False
    then have le: "\<forall>y \<in> set xs. f y \<le> max m (f x)" by (auto simp: not_less)
    have mx: "m < f x"
    proof (rule ccontr)
      assume "\<not> m < f x"
      with le have "\<forall>y \<in> set (x # xs). f y \<le> m" by (auto simp: max_def)
      with Cons.prems show False by (auto simp: not_less [symmetric])
    qed
    with le have le': "\<forall>y \<in> set xs. f y \<le> f x" by (simp add: max_def)
    have M: "Max (f ` set (x # xs)) = f x"
    proof (cases "xs = []")
      case True
      then show ?thesis by simp
    next
      case False
      have "Max (f ` set xs) \<le> f x" using le' False by simp
      then show ?thesis unfolding Max_image_Cons [OF False] by (simp add: max_def)
    qed
    show ?thesis
      unfolding M using mx first_max_none [OF le', of x] by simp
  qed
qed

lemma py_max_key_first:
  assumes "d \<noteq> []"
  shows "\<exists>kv. py_max_key d = Some kv \<and> snd kv = Max (snd ` set d) \<and>
              find (\<lambda>x. snd x = Max (snd ` set d)) d = Some kv"
proof -
  obtain p rest where d: "d = p # rest" using assms by (cases d) auto
  have key: "py_max_key d = Some (fst (first_max snd (p, snd p) rest))"
    by (simp add: d py_max_key_def)
  show ?thesis
  proof (cases "\<exists>x \<in> set rest. snd p < snd x")
    case True
    then obtain y where y: "y \<in> set rest" "snd p < snd y" by blast
    then have ne: "rest \<noteq> []" by auto
    have lt: "snd p < Max (snd ` set rest)"
      using y(2) Max_image_ge [OF y(1), of snd] by linarith
    then have M: "Max (snd ` set d) = Max (snd ` set rest)"
      unfolding d Max_image_Cons [OF ne] by (simp add: max_def)
    have fm: "snd (first_max snd (p, snd p) rest) = Max (snd ` set rest)"
      "find (\<lambda>x. snd x = Max (snd ` set rest)) rest = Some (fst (first_max snd (p, snd p) rest))"
      using first_max_some [OF True, of p] by simp_all
    from find_Some_iff [THEN iffD1, OF fm(2)]
    have "snd (fst (first_max snd (p, snd p) rest)) = Max (snd ` set rest)" by auto
    moreover have "find (\<lambda>x. snd x = Max (snd ` set rest)) d =
                   Some (fst (first_max snd (p, snd p) rest))"
      using lt fm(2) by (simp add: d)
    ultimately show ?thesis unfolding M key by simp
  next
    case False
    then have le: "\<forall>x \<in> set rest. snd x \<le> snd p" by (auto simp: not_less)
    have M: "Max (snd ` set d) = snd p"
    proof (cases "rest = []")
      case True
      then show ?thesis by (simp add: d)
    next
      case ne: False
      have "Max (snd ` set rest) \<le> snd p" using le ne by simp
      then show ?thesis unfolding d Max_image_Cons [OF ne] by (simp add: max_def)
    qed
    show ?thesis
      unfolding M key using first_max_none [OF le, of p] by (simp add: d)
  qed
qed

lemma find_map_pair:
  "find (\<lambda>x. snd x = m) (map (\<lambda>c. (c, g c)) cs) = map_option (\<lambda>c. (c, g c)) (find (\<lambda>c. g c = m) cs)"
  by (induction cs) auto

section \<open>Rule-based category\<close>

lemma keywords_present_eq:
  assumes "distinct keywords"
  shows "keywords_present keywords text = keyword_score keywords text"
proof -
  have "distinct (filter (\<lambda>k. str_in k text) keywords)"
    using assms by simp
  then have "keyword_score keywords text = card (set (filter (\<lambda>k. str_in k text) keywords))"
    unfolding keyword_score_def by (rule distinct_card [symmetric])
  also have "set (filter (\<lambda>k. str_in k text) keywords) = {k \<in> set keywords. sublist k text}"
    by (auto simp: str_in_sublist)
  finally show ?thesis by (simp add: keywords_present_def)
qed

lemma category_keywords_simps:
  "category_keywords ''Latest Attacks'' =
     [''ransomware'', ''malware'', ''attack'', ''breach'', ''hack'', ''incident'']"
  "category_keywords ''Vulnerabilities'' =
     [''vulnerability'', ''exploit'', ''cve'', ''zero-day'', ''patch'', ''flaw'']"
  "category_keywords ''New Tools'' =
     [''tool'', ''platform'', ''software'', ''solution'', ''framework'', ''technology'']"
  "category_keywords ''Threat Intelligence'' =
     [''threat'', ''intelligence'', ''apt'', ''campaign'', ''actor'', ''group'']"
  "category_keywords ''General'' =
     [''security'', ''cybersecurity'', ''infosec'', ''policy'', ''regulation'', ''compliance'']"
  by (simp_all add: category_keywords_def categories_def)

lemma category_score_code:
  "c \<in> set category_order \<Longrightarrow> category_score text c = keyword_score (category_keywords c) text"
  unfolding category_score_def
  by (rule keywords_present_eq) (auto simp: category_order_def category_keywords_simps)

lemma category_scores_eq:
  "keyword_scores categories text = map (\<lambda>c. (c, category_score text c)) category_order"
proof -
  have "map (\<lambda>c. (c, category_score text c)) category_order =
        map (\<lambda>c. (c, keyword_score (category_keywords c) text)) category_order"
    by (rule map_cong [OF refl]) (simp add: category_score_code)
  also have "\<dots> = keyword_scores categories text"
    by (simp add: category_order_def category_keywords_simps keyword_scores_def categories_def)
  finally show ?thesis by simp
qed

text \<open>
  C3, as amended. For every lower-cased text, \<open>determine_category\<close> scores each of the
  five categories by the number of keywords of its list that are present in the text,
  a keyword counting once however often it occurs; it returns General when the maximal
  score is 0, and otherwise the first category, in the order Latest Attacks,
  Vulnerabilities, New Tools, Threat Intelligence, General, whose score is the maximal
  score.
\<close>

theorem determine_category_first_max:
  "keyword_scores categories text =
     map (\<lambda>c. (c, category_score text c)) category_order \<and>
   (max_category_score text = 0 \<longrightarrow> determine_category text = ''General'') \<and>
   (0 < max_category_score text \<longrightarrow>
      find (\<lambda>c. category_score text c = max_category_score text) category_order =
        Some (determine_category text))"
proof -
  let ?d = "keyword_scores categories text"
  have img: "snd ` set ?d = set (map (category_score text) category_order)"
    unfolding category_scores_eq by (simp add: image_image)
  have ne: "?d \<noteq> []" by (simp add: category_scores_eq category_order_def)
  from py_max_key_first [OF ne] obtain kv where
    kv: "py_max_key ?d = Some kv" "snd kv = max_category_score text"
      "find (\<lambda>x. snd x = max_category_score text) ?d = Some kv"
    unfolding img max_category_score_def by blast
  have det: "determine_category text = (if 0 < snd kv then fst kv else ''General'')"
    by (simp add: determine_category_def kv(1) case_prod_unfold)
  have "map_option (\<lambda>c. (c, category_score text c))
          (find (\<lambda>c. category_score text c = max_category_score text) category_order) = Some kv"
    using kv(3) unfolding category_scores_eq find_map_pair .
  then have f: "find (\<lambda>c. category_score text c = max_category_score text) category_order =
      Some (fst kv)"
    by auto
  show ?thesis using category_scores_eq det f kv(2) by simp
qed

text \<open>
  Scoring by occurrences gives another category on the text
  \<open>attack attack attack exploit cve\<close>: three occurrences of a keyword of Latest
  Attacks against two of Vulnerabilities, but one keyword present against two.
\<close>

theorem determine_category_first_max_counterexample:
  "category_occurrences ''attack attack attack exploit cve'' ''Latest Attacks'' = 3 \<and>
   category_occurrences ''attack attack attack exploit cve'' ''Vulnerabilities'' = 2 \<and>
   spec_category ''attack attack attack exploit cve'' = ''Latest Attacks'' \<and>
   determine_category ''attack attack attack exploit cve'' = ''Vulnerabilities''"
  by code_simp

theorem determine_category_first_max_witness:
  "0 < max_category_score ''new ransomware attack exploits a flaw'' \<and>
   category_score ''new ransomware attack exploits a flaw'' ''Latest Attacks'' = 2 \<and>
   category_score ''new ransomware attack exploits a flaw'' ''Vulnerabilities'' = 2 \<and>
   determine_category ''new ransomware attack exploits a flaw'' = ''Latest Attacks''"
proof -
  have k: "keyword_scores categories ''new ransomware attack exploits a flaw'' =
      [(''Latest Attacks'', 2), (''Vulnerabilities'', 2), (''New Tools'', 0),
       (''Threat Intelligence'', 0), (''General'', 0)]"
    by code_simp
  have s: "category_score ''new ransomware attack exploits a flaw'' ''Latest Attacks'' = 2"
    "category_score ''new ransomware attack exploits a flaw'' ''Vulnerabilities'' = 2"
    "category_score ''new ransomware attack exploits a flaw'' ''New Tools'' = 0"
    "category_score ''new ransomware attack exploits a flaw'' ''Threat Intelligence'' = 0"
    "category_score ''new ransomware attack exploits a flaw'' ''General'' = 0"
    using determine_category_first_max [of "''new ransomware attack exploits a flaw''"]
    unfolding k by (simp_all add: category_order_def)
  have m: "max_category_score ''new ransomware attack exploits a flaw'' = 2"
    by (simp add: max_category_score_def category_order_def s)
  have "find (\<lambda>c. category_score ''new ransomware attack exploits a flaw'' c =
                 max_category_score ''new ransomware attack exploits a flaw'') category_order =
        Some (determine_category ''new ransomware attack exploits a flaw'')"
    using determine_category_first_max [of "''new ransomware attack exploits a flaw''"]
    by (simp add: m)
  moreover have "find (\<lambda>c. category_score ''new ransomware attack exploits a flaw'' c =
                 max_category_score ''new ransomware attack exploits a flaw'') category_order =
        Some ''Latest Attacks''"
    by (simp add: m s category_order_def)
  ultimately have "determine_category ''new ransomware attack exploits a flaw'' = ''Latest Attacks''"
    by simp
  then show ?thesis by (simp add: m s)
qed

section \<open>Rule-based summary\<close>

lemma sentence_present_eq: "sentence_present s = sentence_keywords s"
  unfolding sentence_present_def sentence_keywords_def
  by (rule keywords_present_eq) (simp add: cyber_keywords_def)

lemma best_later_code:
  "best_later later =
     (let m = Max (set (map sentence_keywords later)) in
      if m = 0 then None else find (\<lambda>s. sentence_keywords s = m) later)"
  by (simp add: best_later_def sentence_present_eq)

lemma sentence_keywords_empty: "sentence_keywords [] = 0"
  by (simp add: sentence_keywords_def keyword_score_def cyber_keywords_def str_lower_def)

lemma best_sentence_scan:
  "first_max sentence_keywords ([], 0) later =
     (case best_later later of
        None \<Rightarrow> ([], 0)
      | Some best \<Rightarrow> (best, Max (sentence_keywords ` set later)))"
proof (cases "\<exists>x \<in> set later. 0 < sentence_keywords x")
  case True
  then obtain y where y: "y \<in> set later" "0 < sentence_keywords y" by blast
  have "0 < Max (sentence_keywords ` set later)"
    using y(2) Max_image_ge [OF y(1), of sentence_keywords] by linarith
  then have "best_later later =
      find (\<lambda>s. sentence_keywords s = Max (sentence_keywords ` set later)) later"
    by (simp add: best_later_code Let_def)
  with first_max_some [OF True, of "[]"] show ?thesis
    by (cases "first_max sentence_keywords ([], 0) later") simp
next
  case False
  then have le: "\<forall>x \<in> set later. sentence_keywords x \<le> 0" by auto
  have "Max (set (map sentence_keywords later)) = 0" if "later \<noteq> []"
  proof -
    have "Max (sentence_keywords ` set later) \<le> 0" using le that by simp
    then show ?thesis by simp
  qed
  then have "best_later later = None"
    by (cases "later = []") (simp_all add: best_later_code Let_def)
  with first_max_none [OF le, of "[]"] show ?thesis by simp
qed

lemma best_later_nonempty: "best_later later = Some best \<Longrightarrow> best \<noteq> []"
proof
  assume b: "best_later later = Some best" and e: "best = []"
  then have m: "Max (set (map sentence_keywords later)) \<noteq> 0"
    by (auto simp: best_later_code Let_def split: if_splits)
  with b have "find (\<lambda>s. sentence_keywords s = Max (set (map sentence_keywords later))) later = Some best"
    by (simp add: best_later_code Let_def)
  then have "sentence_keywords best = Max (set (map sentence_keywords later))"
    by (auto simp: find_Some_iff)
  with m e show False by (simp add: sentence_keywords_empty)
qed

text \<open>
  C4, as amended. For every item, when the content splits on a full stop and a space
  into at least two sentences, the rule-based summary is the first sentence and,
  joined to it by a full stop and a space, the first of the later sentences in which
  the most keywords of the fixed set of seven are present, a keyword counting once
  however often it occurs in the sentence; it is the first sentence alone when no
  keyword is present in a later sentence, or when that best later sentence is
  textually equal to the first sentence; a full stop is appended in each case. With
  fewer than two sentences it is the first 200 characters of the content, with an
  ellipsis appended exactly when the content is longer than 200 characters.
\<close>

theorem rule_based_summary_exact:
  "generate_rule_based_summary item =
     (case str_split (content item) of
        first # second # others \<Rightarrow>
          (case best_later (second # others) of
             None \<Rightarrow> first @ ''.''
           | Some best \<Rightarrow>
               if best = first then first @ ''.'' else first @ ''. '' @ best @ ''.'')
      | _ \<Rightarrow> if length (content item) > 200 then take 200 (content item) @ ''...''
             else content item)"
proof (cases "str_split (content item)")
  case Nil
  then show ?thesis
    by (simp add: generate_rule_based_summary_def truncate_200_def)
next
  case (Cons first rest)
  show ?thesis
  proof (cases rest)
    case Nil
    with Cons show ?thesis
      by (simp add: generate_rule_based_summary_def truncate_200_def)
  next
    case (Cons second others)
    note sp = \<open>str_split (content item) = first # rest\<close> [unfolded Cons]
    show ?thesis
    proof (cases "best_later (second # others)")
      case None
      then show ?thesis
        using best_sentence_scan [of "second # others"]
        by (simp add: generate_rule_based_summary_def sp)
    next
      case (Some best)
      then show ?thesis
        using best_sentence_scan [of "second # others"] best_later_nonempty [OF Some]
        by (simp add: generate_rule_based_summary_def sp)
    qed
  qed
qed

text \<open>
  The summary of the specification is not what the code returns in two cases. For the
  content \<open>attack. attack\<close> the later sentence has a keyword, and is dropped because
  it equals the first sentence. For the content
  \<open>Intro. attack attack attack. breach malware\<close> the second sentence has the most
  occurrences of keywords, three of one keyword, and the code takes the third
  sentence, in which two keywords are present.
\<close>

theorem rule_based_summary_counterexample:
  "str_split (content (fetched_item ''t'' ''attack. attack'')) = [''attack'', ''attack''] \<and>
   sentence_occurrences ''attack'' = 1 \<and>
   spec_summary (fetched_item ''t'' ''attack. attack'') = ''attack. attack.'' \<and>
   generate_rule_based_summary (fetched_item ''t'' ''attack. attack'') = ''attack.'' \<and>
   str_split (content (fetched_item ''t'' ''Intro. attack attack attack. breach malware'')) =
     [''Intro'', ''attack attack attack'', ''breach malware''] \<and>
   sentence_occurrences ''attack attack attack'' = 3 \<and>
   sentence_occurrences ''breach malware'' = 2 \<and>
   sentence_keywords ''attack attack attack'' = 1 \<and>
   sentence_keywords ''breach malware'' = 2 \<and>
   spec_summary (fetched_item ''t'' ''Intro. attack attack attack. breach malware'') =
     ''Intro. attack attack attack.'' \<and>
   generate_rule_based_summary (fetched_item ''t'' ''Intro. attack attack attack. breach malware'') =
     ''Intro. breach malware.''"
  by code_simp

theorem rule_based_summary_exact_witness:
  "generate_rule_based_summary
     (fetched_item ''t'' ''Patch day. A breach hit the bank. The malware attack spread'') =
     ''Patch day. The malware attack spread.''"
proof -
  have s: "str_split (content (fetched_item ''t'' ''Patch day. A breach hit the bank. The malware attack spread'')) =
      [''Patch day'', ''A breach hit the bank'', ''The malware attack spread'']"
    by code_simp
  have b: "best_later [''A breach hit the bank'', ''The malware attack spread''] =
      Some ''The malware attack spread''"
    unfolding best_later_code by code_simp
  show ?thesis
    using rule_based_summary_exact
      [of "fetched_item ''t'' ''Patch day. A breach hit the bank. The malware attack spread''"]
    by (simp add: s b)
qed

section \<open>The one-way downgrade to rule-based classification\<close>

lemma disabled_is_rule_based:
  "\<not> use_gemini s \<Longrightarrow> analyze_news_item production g s item = (analyze_with_rules item, s)"
  by (simp add: analyze_news_item_def)

lemma disabled_calls:
  "\<not> use_gemini s \<Longrightarrow> analyze_calls production g s items = (map analyze_with_rules items, s)"
  by (induction items) (simp_all add: disabled_is_rule_based)

text \<open>
  C5. When the generative path is in use (not production mode, \<open>use_gemini\<close> set) and
  the call of the service fails with a message that the code takes for a quota
  condition (it contains \<open>quota\<close>, in any case, or \<open>429\<close>), the failing call returns
  the rule-based analysis and leaves \<open>use_gemini\<close> cleared, with the API key still
  configured; from that state every later \<open>analyze_news_item\<close> call, whatever the
  environment switch and whatever the service would answer, returns the rule-based
  analysis and leaves the state as it is, so the generative path is never taken again.
\<close>

theorem quota_failure_disables_gemini:
  assumes "\<not> production" and "use_gemini s"
    and "generate_content g (api_calls s) item = Inl e"
    and "quota_error (exn_msg e)"
  shows "fst (analyze_news_item production g s item) = analyze_with_rules item \<and>
         \<not> use_gemini (snd (analyze_news_item production g s item)) \<and>
         gemini_api_key (snd (analyze_news_item production g s item)) = gemini_api_key s \<and>
         (\<forall>production' g' item'.
            analyze_news_item production' g' (snd (analyze_news_item production g s item)) item' =
              (analyze_with_rules item', snd (analyze_news_item production g s item))) \<and>
         (\<forall>production' g' items.
            analyze_calls production' g' (snd (analyze_news_item production g s item)) items =
              (map analyze_with_rules items, snd (analyze_news_item production g s item)))"
proof -
  have eq: "analyze_news_item production g s item =
      (analyze_with_rules item, s\<lparr>api_calls := api_calls s + 1, use_gemini := False\<rparr>)"
    using assms by (simp add: analyze_news_item_def analyze_with_gemini_def Let_def)
  have off: "\<not> use_gemini (snd (analyze_news_item production g s item))"
    by (simp add: eq)
  show ?thesis
    using disabled_is_rule_based [OF off] disabled_calls [OF off] by (simp add: eq)
qed

theorem quota_failure_disables_gemini_witness:
  "\<not> False \<and> use_gemini (summarizer_init (Some ''key'')) \<and>
   generate_content quota_gemini (api_calls (summarizer_init (Some ''key''))) (fetched_item ''t'' ''c'') =
     Inl (Exception ''429 Quota exceeded'') \<and>
   quota_error (exn_msg (Exception ''429 Quota exceeded'')) \<and>
   fst (analyze_news_item False quota_gemini (summarizer_init (Some ''key'')) (fetched_item ''t'' ''c'')) =
     analyze_with_rules (fetched_item ''t'' ''c'') \<and>
   \<not> use_gemini (snd (analyze_news_item False quota_gemini (summarizer_init (Some ''key''))
                        (fetched_item ''t'' ''c'')))"
proof -
  have h2: "use_gemini (summarizer_init (Some ''key''))"
    by (simp add: summarizer_init_def)
  have h3: "generate_content quota_gemini (api_calls (summarizer_init (Some ''key'')))
      (fetched_item ''t'' ''c'') = Inl (Exception ''429 Quota exceeded'')"
    by (simp add: quota_gemini_def)
  have h4: "quota_error (exn_msg (Exception ''429 Quota exceeded''))"
    by (simp add: quota_error_def)
  show ?thesis
    using h2 h3 h4 quota_failure_disables_gemini [OF _ h2 h3 h4, of False] by simp
qed

section \<open>The e-mail summary\<close>

lemma severity_rank_tiered: "tiered x \<Longrightarrow> \<exists>r. severity_rank (severity x) = Inr r"
  by (auto simp: tiered_def severity_tiers_def severity_rank_def)

lemma severity_rank_untiered: "\<not> tiered x \<Longrightarrow> severity_rank (severity x) = Inl (KeyError (severity x))"
  by (auto simp: tiered_def severity_tiers_def severity_rank_def)

lemma sort_keys_total: "(\<forall>x \<in> set xs. tiered x) \<Longrightarrow> \<exists>ks. sort_keys xs = Inr ks"
proof (induction xs)
  case Nil
  then show ?case by simp
next
  case (Cons x xs)
  then obtain ks r where "sort_keys xs = Inr ks" "severity_rank (severity x) = Inr r"
    using severity_rank_tiered [of x] by auto
  then show ?case by simp
qed

lemma sort_keys_raises: "\<exists>x \<in> set xs. \<not> tiered x \<Longrightarrow> \<exists>k. sort_keys xs = Inl (KeyError k)"
proof (induction xs)
  case Nil
  then show ?case by simp
next
  case (Cons x xs)
  show ?case
  proof (cases "tiered x")
    case True
    with Cons.prems have "\<exists>y \<in> set xs. \<not> tiered y" by auto
    from Cons.IH [OF this] obtain k where "sort_keys xs = Inl (KeyError k)" by blast
    moreover obtain r where "severity_rank (severity x) = Inr r"
      using severity_rank_tiered [OF True] by blast
    ultimately show ?thesis by simp
  next
    case False
    then show ?thesis by (simp add: severity_rank_untiered)
  qed
qed

text \<open>
  C10. \<open>generate_email_summary\<close> returns a subject and a body for every list of items
  whose severities are all High, Medium or Low; for a list with an item of any other
  severity the ranking lookup raises a KeyError and no e-mail is produced; in
  particular the call on a single item of another severity raises the KeyError of that
  severity.
\<close>

theorem email_summary_total_iff_tiered:
  "((\<forall>item \<in> set items. severity item \<in> {''High'', ''Medium'', ''Low''}) \<longrightarrow>
      (\<exists>mail. generate_email_summary current_hour items = Inr mail)) \<and>
   ((\<exists>item \<in> set items. severity item \<notin> {''High'', ''Medium'', ''Low''}) \<longrightarrow>
      (\<exists>k. generate_email_summary current_hour items = Inl (KeyError k))) \<and>
   (severity item \<notin> {''High'', ''Medium'', ''Low''} \<longrightarrow>
      generate_email_summary current_hour [item] = Inl (KeyError (severity item)))"
proof -
  have t: "severity x \<in> {''High'', ''Medium'', ''Low''} \<longleftrightarrow> tiered x" for x
    by (auto simp: tiered_def severity_tiers_def)
  have 1: "\<exists>mail. generate_email_summary current_hour items = Inr mail"
    if "\<forall>item \<in> set items. tiered item"
    using sort_keys_total [OF that]
    by (auto simp: generate_email_summary_def format_email_html_def Let_def)
  have 2: "\<exists>k. generate_email_summary current_hour items = Inl (KeyError k)"
    if "\<exists>item \<in> set items. \<not> tiered item"
    using sort_keys_raises [OF that]
    by (auto simp: generate_email_summary_def format_email_html_def Let_def)
  have 3: "generate_email_summary current_hour [item] = Inl (KeyError (severity item))"
    if "\<not> tiered item"
    using severity_rank_untiered [OF that]
    by (simp add: generate_email_summary_def format_email_html_def Let_def)
  show ?thesis using 1 2 3 unfolding t by blast
qed

theorem email_summary_total_iff_tiered_witness:
  "severity (fetched_item ''a'' ''x'') \<in> {''High'', ''Medium'', ''Low''} \<and>
   (\<exists>mail. generate_email_summary 9 [fetched_item ''a'' ''x''] = Inr mail) \<and>
   severity ((fetched_item ''b'' ''y'')\<lparr>severity := ''Critical''\<rparr>) \<notin> {''High'', ''Medium'', ''Low''} \<and>
   generate_email_summary 9 [(fetched_item ''b'' ''y'')\<lparr>severity := ''Critical''\<rparr>] =
     Inl (KeyError ''Critical'')"
proof -
  have h0: "severity (fetched_item ''a'' ''x'') \<in> {''High'', ''Medium'', ''Low''}"
    by (simp add: fetched_item_def)
  then have h1: "\<forall>item \<in> set [fetched_item ''a'' ''x'']. severity item \<in> {''High'', ''Medium'', ''Low''}"
    by simp
  have h2: "severity ((fetched_item ''b'' ''y'')\<lparr>severity := ''Critical''\<rparr>) \<notin> {''High'', ''Medium'', ''Low''}"
    by simp
  have "\<exists>mail. generate_email_summary 9 [fetched_item ''a'' ''x''] = Inr mail"
    using h1 email_summary_total_iff_tiered [of "[fetched_item ''a'' ''x'']" 9] by blast
  moreover have "generate_email_summary 9 [(fetched_item ''b'' ''y'')\<lparr>severity := ''Critical''\<rparr>] =
     Inl (KeyError ''Critical'')"
    using h2
      email_summary_total_iff_tiered [of _ 9 "(fetched_item ''b'' ''y'')\<lparr>severity := ''Critical''\<rparr>"]
    by simp
  ultimately show ?thesis using h0 h2 by blast
qed

section \<open>The subscriber set\<close>

lemma char_lower_idem: "char_lower (char_lower c) = char_lower c"
  by (simp add: char_lower_def Let_def)

lemma is_space_lower: "is_space (char_lower c) = is_space c"
  by (simp add: char_lower_def is_space_def Let_def)

lemma str_lower_idem: "str_lower (str_lower s) = str_lower s"
  by (simp add: str_lower_def char_lower_idem)

lemma str_strip_lower: "str_strip (str_lower s) = str_lower (str_strip s)"
proof -
  have "is_space \<circ> char_lower = is_space" by (simp add: fun_eq_iff is_space_lower)
  then show ?thesis
    by (simp add: str_strip_def str_lower_def dropWhile_map rev_map)
qed

lemma last_dropWhile: "dropWhile P xs \<noteq> [] \<Longrightarrow> last (dropWhile P xs) = last xs"
  by (induction xs) (auto split: if_splits)

lemma str_strip_idem: "str_strip (str_strip s) = str_strip s"
proof -
  define t where "t = dropWhile is_space s"
  define u where "u = dropWhile is_space (rev t)"
  have strip: "str_strip s = rev u" by (simp add: str_strip_def t_def u_def)
  have front: "dropWhile is_space (rev u) = rev u"
  proof (cases "u = []")
    case True
    then show ?thesis by simp
  next
    case False
    then have "last u = last (rev t)" unfolding u_def by (rule last_dropWhile)
    moreover have tne: "t \<noteq> []" using False by (auto simp: u_def)
    ultimately have "hd (rev u) = hd t" using False by (simp add: hd_rev last_rev)
    moreover have "\<not> is_space (hd t)" using tne unfolding t_def by (rule hd_dropWhile)
    ultimately show ?thesis using False by (cases "rev u") auto
  qed
  have rear: "dropWhile is_space u = u" by (simp add: u_def)
  show ?thesis unfolding strip by (simp add: str_strip_def front rear)
qed

lemma normalized_fixed:
  "str_strip (normalized e) = normalized e \<and> str_lower (normalized e) = normalized e"
  by (simp add: normalized_def str_strip_lower str_strip_idem str_lower_idem)

lemma load_normalized: "e \<in> load_subscribers file \<Longrightarrow> \<exists>line. e = normalized line"
  by (auto simp: load_subscribers_def normalized_def split: option.splits)

lemma apply_ops_normalized:
  "(\<forall>e \<in> subs. \<exists>a. e = normalized a) \<Longrightarrow> \<forall>e \<in> apply_ops subs ops. \<exists>a. e = normalized a"
proof (induction subs ops rule: apply_ops.induct)
  case (1 subscribers)
  then show ?case by simp
next
  case (2 subscribers e ops)
  have "\<forall>x \<in> snd (add_subscriber subscribers e). \<exists>a. x = normalized a"
    using "2.prems" by (auto simp: add_subscriber_def Let_def normalized_def)
  from "2.IH" [OF this] show ?case by simp
next
  case (3 subscribers e ops)
  have "\<forall>x \<in> snd (remove_subscriber subscribers e). \<exists>a. x = normalized a"
    using "3.prems" by (auto simp: remove_subscriber_def Let_def)
  from "3.IH" [OF this] show ?case by simp
qed

lemma apply_ops_finite: "finite subs \<Longrightarrow> finite (apply_ops subs ops)"
  by (induction subs ops rule: apply_ops.induct)
    (auto simp: add_subscriber_def remove_subscriber_def Let_def)

lemma apply_ops_valid:
  "(\<forall>e \<in> subs. valid_email e) \<Longrightarrow> adds_valid ops \<Longrightarrow> \<forall>e \<in> apply_ops subs ops. valid_email e"
proof (induction subs ops rule: apply_ops.induct)
  case (1 subscribers)
  then show ?case by simp
next
  case (2 subscribers e ops)
  have "\<forall>x \<in> snd (add_subscriber subscribers e). valid_email x"
    using "2.prems" by (auto simp: add_subscriber_def Let_def normalized_def)
  from "2.IH" [OF this] "2.prems"(2) show ?case by simp
next
  case (3 subscribers e ops)
  have "\<forall>x \<in> snd (remove_subscriber subscribers e). valid_email x"
    using "3.prems" by (auto simp: remove_subscriber_def Let_def)
  from "3.IH" [OF this] "3.prems"(2) show ?case by simp
qed

lemma load_finite: "finite (load_subscribers file)"
  by (simp add: load_subscribers_def split: option.splits)

text \<open>
  C9, as amended. After a load and any sequence of \<open>add_subscriber\<close> and
  \<open>remove_subscriber\<close> calls, every element of the subscriber set is a trimmed,
  lower-cased string; the subscribers are a set, in which no element appears twice:
  \<open>add_subscriber\<close> returns False exactly when the normalised address is already
  present, and then leaves the set unchanged, and otherwise it inserts the normalised
  address, one more element. The service itself does not check the format of an
  address: the elements are valid e-mail addresses if every loaded line and every
  added address passes the format check, as the addresses do that the subscription
  route lets through.
\<close>

theorem subscribers_normalized_unique:
  "(\<forall>e \<in> apply_ops (load_subscribers file) ops. str_strip e = e \<and> str_lower e = e) \<and>
   finite (apply_ops (load_subscribers file) ops) \<and>
   (fst (add_subscriber subs a) = False \<longleftrightarrow> str_lower (str_strip a) \<in> subs) \<and>
   (str_lower (str_strip a) \<in> subs \<longrightarrow> snd (add_subscriber subs a) = subs) \<and>
   (str_lower (str_strip a) \<notin> subs \<longrightarrow>
      snd (add_subscriber subs a) = insert (str_lower (str_strip a)) subs) \<and>
   (finite subs \<longrightarrow>
      card (snd (add_subscriber subs a)) =
        (if fst (add_subscriber subs a) then card subs + 1 else card subs)) \<and>
   ((\<forall>e \<in> load_subscribers file. valid_email e) \<longrightarrow> adds_valid ops \<longrightarrow>
      (\<forall>e \<in> apply_ops (load_subscribers file) ops. valid_email e))"
proof -
  let ?S = "apply_ops (load_subscribers file) ops"
  have "\<forall>e \<in> ?S. \<exists>a. e = normalized a"
    using load_normalized by (intro apply_ops_normalized) blast
  then have 1: "\<forall>e \<in> ?S. str_strip e = e \<and> str_lower e = e"
    using normalized_fixed by metis
  have 2: "finite ?S" by (intro apply_ops_finite load_finite)
  have 4: "fst (add_subscriber subs a) = False \<longleftrightarrow> str_lower (str_strip a) \<in> subs"
    "str_lower (str_strip a) \<in> subs \<longrightarrow> snd (add_subscriber subs a) = subs"
    "str_lower (str_strip a) \<notin> subs \<longrightarrow>
       snd (add_subscriber subs a) = insert (str_lower (str_strip a)) subs"
    by (simp_all add: add_subscriber_def Let_def)
  have 3: "finite subs \<longrightarrow>
      card (snd (add_subscriber subs a)) =
        (if fst (add_subscriber subs a) then card subs + 1 else card subs)"
    by (simp add: add_subscriber_def Let_def)
  have 5: "(\<forall>e \<in> load_subscribers file. valid_email e) \<longrightarrow> adds_valid ops \<longrightarrow>
      (\<forall>e \<in> ?S. valid_email e)"
    using apply_ops_valid by blast
  show ?thesis using 1 2 3 4 5 by blast
qed

text \<open>
  The claim as stated fails: \<open>add_subscriber\<close> accepts any string, so after one call
  the set holds an element that is not a valid e-mail address.
\<close>

theorem subscribers_normalized_unique_counterexample:
  "''not an address'' \<in> apply_ops (load_subscribers None) [Add ''  Not an Address ''] \<and>
   \<not> valid_email ''not an address''"
  by code_simp

theorem subscribers_normalized_unique_witness:
  "load_subscribers (Some ['' Ann@Example.org '', []]) = {''ann@example.org''} \<and>
   valid_email ''ann@example.org'' \<and>
   adds_valid [Add ''Bob@example.org'', Remove ''ann@example.org'', Add ''bob@example.org ''] \<and>
   apply_ops (load_subscribers (Some ['' Ann@Example.org '', []]))
       [Add ''Bob@example.org'', Remove ''ann@example.org'', Add ''bob@example.org ''] =
     {''bob@example.org''} \<and>
   str_strip ''bob@example.org'' = ''bob@example.org'' \<and>
   str_lower ''bob@example.org'' = ''bob@example.org'' \<and>
   valid_email ''bob@example.org'' \<and>
   str_lower (str_strip ''Bob@example.org'') \<in> {''bob@example.org''} \<and>
   snd (add_subscriber {''bob@example.org''} ''Bob@example.org'') = {''bob@example.org''}"
proof -
  have l: "load_subscribers (Some ['' Ann@Example.org '', []]) = {''ann@example.org''}"
    by code_simp
  have v: "valid_email ''ann@example.org''"
    by code_simp
  have h1: "\<forall>e \<in> load_subscribers (Some ['' Ann@Example.org '', []]). valid_email e"
    unfolding l using v by simp
  have h2: "adds_valid [Add ''Bob@example.org'', Remove ''ann@example.org'', Add ''bob@example.org '']"
    by code_simp
  have m: "apply_ops (load_subscribers (Some ['' Ann@Example.org '', []]))
       [Add ''Bob@example.org'', Remove ''ann@example.org'', Add ''bob@example.org ''] =
     {''bob@example.org''}"
    unfolding l by code_simp
  have h3: "str_lower (str_strip ''Bob@example.org'') \<in> {''bob@example.org''}"
    by code_simp
  have "\<forall>e \<in> {''bob@example.org''}. (str_strip e = e \<and> str_lower e = e) \<and> valid_email e"
    using h1 h2 h3
      subscribers_normalized_unique [of "Some ['' Ann@Example.org '', []]"
        "[Add ''Bob@example.org'', Remove ''ann@example.org'', Add ''bob@example.org '']"
        "{''bob@example.org''}" "''Bob@example.org''"]
    unfolding m by blast
  moreover have "snd (add_subscriber {''bob@example.org''} ''Bob@example.org'') = {''bob@example.org''}"
    using h3
      subscribers_normalized_unique [of "Some ['' Ann@Example.org '', []]"
        "[Add ''Bob@example.org'', Remove ''ann@example.org'', Add ''bob@example.org '']"
        "{''bob@example.org''}" "''Bob@example.org''"]
    by blast
  ultimately show ?thesis using l v h2 m h3 by simp
qed

end
